theory Spec2Isabelle
  imports Complex_Main
begin

section \<open>The colour gradient script \<^verbatim>\<open>tools/color_generator.py\<close>\<close>

text \<open>
  The script interpolates between six seed colours with the third-party package
  \<^verbatim>\<open>colour\<close>, prints every colour stop twice and paints the stops as horizontal
  bands with the third-party package Pillow. The embedding follows the script
  statement by statement. Python values are modelled as follows:
  \<^item> \<^verbatim>\<open>str\<close> is \<^typ>\<open>string\<close>, one \<^typ>\<open>char\<close> per code point (code points below 256);
  \<^item> \<^verbatim>\<open>int\<close> is \<^typ>\<open>int\<close>;
  \<^item> \<^verbatim>\<open>float\<close> is the rational value of an IEEE binary64 number, every
    arithmetic operation rounding its exact result to 53 significant bits;
  \<^item> a raised exception is a value of \<open>py_error\<close>.
\<close>

subsection \<open>Python's \<^verbatim>\<open>int(s, 16)\<close>\<close>

datatype py_error = ValueError

text \<open>
  The characters \<^verbatim>\<open>int()\<close> skips around a number: the ASCII white space
  and, outside ASCII, the Unicode spaces below 256 (NEL and the no-break space).
\<close>

definition is_space :: "char \<Rightarrow> bool" where
  "is_space c = ((of_char c :: nat) \<in> {9, 10, 11, 12, 13, 32, 133, 160})"

text \<open>
  The digit table of \<^verbatim>\<open>int()\<close>: \<^verbatim>\<open>0-9\<close>, then the letters in either case as
  10 to 35, and 37 for every other character.
\<close>

definition digit_value :: "char \<Rightarrow> nat" where
  "digit_value c =
     (let k = (of_char c :: nat)
      in if 48 \<le> k \<and> k \<le> 57 then k - 48
         else if 97 \<le> k \<and> k \<le> 122 then k - 87
         else if 65 \<le> k \<and> k \<le> 90 then k - 55
         else 37)"

definition is_hex_digit :: "char \<Rightarrow> bool" where
  "is_hex_digit c = (digit_value c < 16)"

definition digit_or_underscore :: "char \<Rightarrow> bool" where
  "digit_or_underscore c = (is_hex_digit c \<or> c = CHR ''_'')"

fun has_double_underscore :: "string \<Rightarrow> bool" where
  "has_double_underscore (a # b # r) =
     ((a = CHR ''_'' \<and> b = CHR ''_'') \<or> has_double_underscore (b # r))"
| "has_double_underscore _ = False"

definition hex_value :: "string \<Rightarrow> int" where
  "hex_value ds = foldl (\<lambda>a c. 16 * a + int (digit_value c)) 0 ds"

text \<open>
  \<^verbatim>\<open>int(s, 16)\<close>: white space, an optional sign, an optional \<^verbatim>\<open>0x\<close> prefix (which
  may be followed by one underscore), then hex digits with single underscores
  between them, then white space up to the end. Anything else raises ValueError.
\<close>

definition int_base16 :: "string \<Rightarrow> py_error + int" where
  "int_base16 s =
     (let s1 = dropWhile is_space s;
          neg = (case s1 of [] \<Rightarrow> False | c # r \<Rightarrow> c = CHR ''-'');
          s2 = (case s1 of [] \<Rightarrow> s1
                | c # r \<Rightarrow> if c = CHR ''+'' \<or> c = CHR ''-'' then r else s1);
          s3 = (case s2 of
                  a # b # r \<Rightarrow>
                    if a = CHR ''0'' \<and> (b = CHR ''x'' \<or> b = CHR ''X'')
                    then (case r of [] \<Rightarrow> r | u # r' \<Rightarrow> if u = CHR ''_'' then r' else r)
                    else s2
                | _ \<Rightarrow> s2);
          body = takeWhile digit_or_underscore s3;
          rest = dropWhile digit_or_underscore s3
      in if body = [] \<or> hd body = CHR ''_'' \<or> has_double_underscore body
            \<or> last body = CHR ''_'' \<or> dropWhile is_space rest \<noteq> []
         then Inl ValueError
         else Inr ((if neg then - 1 else 1) * hex_value (filter (\<lambda>c. c \<noteq> CHR ''_'') body)))"

subsection \<open>Python's \<^verbatim>\<open>float\<close>\<close>

text \<open>Python's \<^verbatim>\<open>int.bit_length\<close>, for a non-negative argument.\<close>

function bit_length :: "int \<Rightarrow> int" where
  "bit_length n = (if n \<le> 0 then 0 else 1 + bit_length (n div 2))"
  by pat_completeness auto
termination
  by (relation "measure nat") auto

declare bit_length.simps [simp del]

definition pow2 :: "int \<Rightarrow> rat" where
  "pow2 e = (if 0 \<le> e then of_int (2 ^ nat e) else 1 / of_int (2 ^ nat (- e)))"

text \<open>The binary exponent of a positive rational: \<open>2 ^ e \<le> x < 2 ^ (e + 1)\<close>.\<close>

definition ilog2 :: "rat \<Rightarrow> int" where
  "ilog2 x = (if 1 \<le> x then bit_length \<lfloor>x\<rfloor> - 1
              else - bit_length (\<lceil>1 / x\<rceil> - 1))"

definition round_half_even :: "rat \<Rightarrow> int" where
  "round_half_even x =
     (let f = \<lfloor>x\<rfloor>; d = x - of_int f
      in if d < 1 / 2 then f
         else if 1 / 2 < d then f + 1
         else if even f then f else f + 1)"

text \<open>
  Rounding to the nearest binary64 number, ties to even: the result is a multiple
  of \<open>2 ^ (e - 52)\<close>, where \<open>e\<close> is the binary exponent of the argument. The
  exponent range of binary64 is not modelled: every float of the script has a
  magnitude between \<open>2 ^ - 8\<close> and \<open>2 ^ 8\<close>, or is zero.
\<close>

definition round_to_double :: "rat \<Rightarrow> rat" where
  "round_to_double x =
     (if x = 0 then 0
      else let u = pow2 (ilog2 \<bar>x\<bar> - 52)
           in of_int (round_half_even (x / u)) * u)"

text \<open>
  \<^verbatim>\<open>x / y\<close> and \<^verbatim>\<open>x * y\<close> on floats. An \<^verbatim>\<open>int\<close> operand is converted first; the
  script's integers are at most 255 in magnitude, so the conversion is exact.
\<close>

definition float_div :: "rat \<Rightarrow> rat \<Rightarrow> rat" where
  "float_div x y = round_to_double (x / y)"

definition float_mul :: "rat \<Rightarrow> rat \<Rightarrow> rat" where
  "float_mul x y = round_to_double (x * y)"

text \<open>\<^verbatim>\<open>int(x)\<close> of a float truncates towards zero.\<close>

definition int_of_float :: "rat \<Rightarrow> int" where
  "int_of_float x = (if 0 \<le> x then \<lfloor>x\<rfloor> else \<lceil>x\<rceil>)"

text \<open>
  The format \<^verbatim>\<open>{x:.4f}\<close>: the exact value of the float rounded to four decimals,
  ties to even, with a minus sign for a negative float.
\<close>

definition digit_char :: "nat \<Rightarrow> char" where
  "digit_char d = char_of (48 + d)"

fun decimal :: "nat \<Rightarrow> string" where
  "decimal n = (if n < 10 then [digit_char n] else decimal (n div 10) @ [digit_char (n mod 10)])"

declare decimal.simps [simp del]

definition format_4f :: "rat \<Rightarrow> string" where
  "format_4f x =
     (let n = nat (round_half_even (\<bar>x\<bar> * 10000))
      in (if x < 0 then ''-'' else '''') @ decimal (n div 10000) @ ''.''
         @ map digit_char [n div 1000 mod 10, n div 100 mod 10, n div 10 mod 10, n mod 10])"

subsection \<open>\<^verbatim>\<open>hex_to_rgba\<close>\<close>

text \<open>
  \<^verbatim>\<open>hex_color.lstrip('#')\<close> removes every leading \<^verbatim>\<open>#\<close>; a slice \<^verbatim>\<open>h[i:j]\<close> never
  raises and is shorter than \<open>j - i\<close> when the string ends early.
\<close>

definition lstrip_hash :: "string \<Rightarrow> string" where
  "lstrip_hash s = dropWhile (\<lambda>c. c = CHR ''#'') s"

definition slice :: "string \<Rightarrow> nat \<Rightarrow> nat \<Rightarrow> string" where
  "slice s i j = take (j - i) (drop i s)"

definition hex_to_rgba :: "string \<Rightarrow> py_error + rat \<times> rat \<times> rat \<times> rat" where
  "hex_to_rgba hex_color =
     (let h = lstrip_hash hex_color
      in case int_base16 (slice h 0 2) of Inl e \<Rightarrow> Inl e
         | Inr ri \<Rightarrow>
        (case int_base16 (slice h 2 4) of Inl e \<Rightarrow> Inl e
         | Inr gi \<Rightarrow>
        (case int_base16 (slice h 4 6) of Inl e \<Rightarrow> Inl e
         | Inr bi \<Rightarrow>
            Inr (float_div (of_int ri) 255, float_div (of_int gi) 255,
                 float_div (of_int bi) 255, 1))))"

subsection \<open>The part of Pillow the script uses\<close>

text \<open>
  An image is its size, its background and the rectangles drawn on it, in drawing
  order. \<^verbatim>\<open>Image.new\<close> raises ValueError for a negative width or height (Pillow's
  size check); \<^verbatim>\<open>draw.rectangle\<close> and \<^verbatim>\<open>image.save\<close> are recorded as calls. A saved
  file replaces whatever the path held.
\<close>

type_synonym point = "int \<times> int"
type_synonym rgb = "int \<times> int \<times> int"

record image =
  im_mode :: string
  im_width :: int
  im_height :: int
  im_background :: rgb
  im_rectangles :: "((point \<times> point) \<times> rgb) list"

definition Image_new :: "string \<Rightarrow> int \<times> int \<Rightarrow> rgb \<Rightarrow> py_error + image" where
  "Image_new mode dims color =
     (if fst dims < 0 \<or> snd dims < 0 then Inl ValueError
      else Inr \<lparr>im_mode = mode, im_width = fst dims, im_height = snd dims,
                im_background = color, im_rectangles = []\<rparr>)"

definition draw_rectangle :: "point \<times> point \<Rightarrow> rgb \<Rightarrow> image \<Rightarrow> image" where
  "draw_rectangle shape fill im = im\<lparr>im_rectangles := im_rectangles im @ [(shape, fill)]\<rparr>"

text \<open>What the process leaves behind: the lines printed and the files written.\<close>

record world =
  stdout :: "string list"
  files :: "string \<rightharpoonup> image"

definition print :: "string \<Rightarrow> world \<Rightarrow> world" where
  "print line w = w\<lparr>stdout := stdout w @ [line]\<rparr>"

definition image_save :: "string \<Rightarrow> image \<Rightarrow> world \<Rightarrow> world" where
  "image_save path im w = w\<lparr>files := (files w)(path \<mapsto> im)\<rparr>"

subsection \<open>\<^verbatim>\<open>write_image\<close>\<close>

definition STEPS :: int where
  "STEPS = 10"

definition STEP_SIZE :: int where
  "STEP_SIZE = 10"

text \<open>
  A colour object is of any type \<open>'c\<close>; \<^verbatim>\<open>write_image\<close> reads only its attribute
  \<^verbatim>\<open>hex_l\<close>, passed as a function. The inner loop over one \<^verbatim>\<open>sub_array\<close> and the outer
  loop over \<^verbatim>\<open>colors\<close> carry the offset \<^verbatim>\<open>y\<close> and the image. The loop body also
  computes \<^verbatim>\<open>int(a * 255)\<close> and never uses it; \<^verbatim>\<open>ImageDraw.Draw\<close> and \<^verbatim>\<open>image.close\<close>
  change nothing that is modelled.
\<close>

fun draw_sub_array ::
  "('c \<Rightarrow> string) \<Rightarrow> int \<Rightarrow> 'c list \<Rightarrow> int \<times> image \<Rightarrow> py_error + int \<times> image" where
  "draw_sub_array hex_l width [] (y, im) = Inr (y, im)"
| "draw_sub_array hex_l width (color # sub_array) (y, im) =
     (case hex_to_rgba (hex_l color) of Inl e \<Rightarrow> Inl e
      | Inr (r, g, b, a) \<Rightarrow>
          draw_sub_array hex_l width sub_array
            (y + STEP_SIZE,
             draw_rectangle ((0, y), (width, y + STEP_SIZE - 2))
               (int_of_float (float_mul r 255), int_of_float (float_mul g 255),
                int_of_float (float_mul b 255)) im))"

fun draw_gradient ::
  "('c \<Rightarrow> string) \<Rightarrow> int \<Rightarrow> 'c list list \<Rightarrow> int \<times> image \<Rightarrow> py_error + int \<times> image" where
  "draw_gradient hex_l width [] st = Inr st"
| "draw_gradient hex_l width (sub_array # colors) st =
     (case draw_sub_array hex_l width sub_array st of Inl e \<Rightarrow> Inl e
      | Inr st' \<Rightarrow> draw_gradient hex_l width colors st')"

text \<open>The size passed to \<^verbatim>\<open>Image.new\<close>: \<^verbatim>\<open>colors\<close> is the list of segments.\<close>

definition canvas_size :: "'c list list \<Rightarrow> int \<times> int" where
  "canvas_size colors = (50, (int (length colors) - 1) * STEPS * STEP_SIZE)"

definition write_image :: "('c \<Rightarrow> string) \<Rightarrow> 'c list list \<Rightarrow> world \<Rightarrow> py_error option \<times> world" where
  "write_image hex_l colors w =
     (case Image_new ''RGB'' (canvas_size colors) (255, 255, 255) of Inl e \<Rightarrow> (Some e, w)
      | Inr im \<Rightarrow>
          (case draw_gradient hex_l (fst (canvas_size colors)) colors (0, im) of
             Inl e \<Rightarrow> (Some e, w)
           | Inr (y, im') \<Rightarrow> (None, image_save ''gradient.png'' im' w)))"

subsection \<open>The script\<close>

text \<open>
  The package \<^verbatim>\<open>colour\<close> is not part of the repository. The script uses three of
  its operations, which the model takes as parameters: the constructor \<^verbatim>\<open>Color\<close>,
  the method \<^verbatim>\<open>range_to\<close> and the attribute \<^verbatim>\<open>hex_l\<close>.
\<close>

record 'c colour_lib =
  Color :: "string \<Rightarrow> 'c"
  range_to :: "'c \<Rightarrow> 'c \<Rightarrow> int \<Rightarrow> 'c list"
  hex_l :: "'c \<Rightarrow> string"

definition initial_colors :: "'c colour_lib \<Rightarrow> 'c list" where
  "initial_colors lib =
     map (Color lib) [''#E6F800'', ''#71E05A'', ''#00BE84'', ''#009794'', ''#006F83'', ''#2F4858'']"

text \<open>
  \<^verbatim>\<open>for i in range(0, len(initial_colors) - 1)\<close>: no iteration for an empty list,
  since \<^verbatim>\<open>range(0, -1)\<close> is empty.
\<close>

definition build_colors :: "'c colour_lib \<Rightarrow> 'c list \<Rightarrow> 'c list list" where
  "build_colors lib seeds =
     map (\<lambda>i. range_to lib (seeds ! i) (seeds ! (i + 1)) STEPS) [0..<length seeds - 1]"

text \<open>
  The first pass prints \<^verbatim>\<open>color.hex_l\<close> of every stop. The counter \<^verbatim>\<open>i\<close> of both
  passes is never read.
\<close>

fun print_hex_sub_array :: "'c colour_lib \<Rightarrow> 'c list \<Rightarrow> world \<Rightarrow> world" where
  "print_hex_sub_array lib [] w = w"
| "print_hex_sub_array lib (color # sub_array) w =
     print_hex_sub_array lib sub_array (print (hex_l lib color) w)"

fun print_hex :: "'c colour_lib \<Rightarrow> 'c list list \<Rightarrow> world \<Rightarrow> world" where
  "print_hex lib [] w = w"
| "print_hex lib (sub_array # colors) w =
     print_hex lib colors (print_hex_sub_array lib sub_array w)"

text \<open>The second pass prints the normalised channels of every stop.\<close>

definition rgb_line :: "rat \<Rightarrow> rat \<Rightarrow> rat \<Rightarrow> string" where
  "rgb_line r g b = ''('' @ format_4f r @ '', '' @ format_4f g @ '', '' @ format_4f b @ '')''"

fun print_rgb_sub_array :: "'c colour_lib \<Rightarrow> 'c list \<Rightarrow> world \<Rightarrow> py_error option \<times> world" where
  "print_rgb_sub_array lib [] w = (None, w)"
| "print_rgb_sub_array lib (color # sub_array) w =
     (case hex_to_rgba (hex_l lib color) of Inl e \<Rightarrow> (Some e, w)
      | Inr (r, g, b, a) \<Rightarrow> print_rgb_sub_array lib sub_array (print (rgb_line r g b) w))"

fun print_rgb :: "'c colour_lib \<Rightarrow> 'c list list \<Rightarrow> world \<Rightarrow> py_error option \<times> world" where
  "print_rgb lib [] w = (None, w)"
| "print_rgb lib (sub_array # colors) w =
     (case print_rgb_sub_array lib sub_array w of
        (Some e, w') \<Rightarrow> (Some e, w')
      | (None, w') \<Rightarrow> print_rgb lib colors w')"

text \<open>
  The script from the seed list on: build the segments, print twice, write the
  image. An exception ends the run where it is raised.
\<close>

definition script :: "'c colour_lib \<Rightarrow> 'c list \<Rightarrow> world \<Rightarrow> py_error option \<times> world" where
  "script lib seeds w =
     (let colors = build_colors lib seeds
      in case print_rgb lib colors (print_hex lib colors w) of
           (Some e, w') \<Rightarrow> (Some e, w')
         | (None, w') \<Rightarrow> write_image (hex_l lib) colors w')"

text \<open>The script as it stands, with its six seeds.\<close>

definition main :: "'c colour_lib \<Rightarrow> world \<Rightarrow> py_error option \<times> world" where
  "main lib w = script lib (initial_colors lib) w"

section \<open>Notions used in the statements and proofs\<close>

text \<open>
  A colour string of six hex digits, and the value of the digit pair that starts
  at position \<open>i\<close>.
\<close>

definition hex6 :: "string \<Rightarrow> bool" where
  "hex6 h = (length h = 6 \<and> list_all is_hex_digit h)"

definition byte_at :: "string \<Rightarrow> nat \<Rightarrow> int" where
  "byte_at h i = 16 * int (digit_value (h ! i)) + int (digit_value (h ! (i + 1)))"

text \<open>
  Rounding a quotient of integers to the nearest integer, ties to even, in integer
  arithmetic; \<open>byte_check\<close> computes both roundings of \<^verbatim>\<open>int(n / 255.0 * 255)\<close> with it
  and is shown below to imply \<open>byte_ok\<close>, the statement about the float model.
\<close>

definition rne_div :: "int \<Rightarrow> int \<Rightarrow> int" where
  "rne_div a b =
     (let f = a div b; r = a mod b
      in if 2 * r < b then f else if b < 2 * r then f + 1 else if even f then f else f + 1)"

definition byte_ok :: "int \<Rightarrow> bool" where
  "byte_ok n = (0 \<le> float_div (of_int n) 255 \<and> float_div (of_int n) 255 \<le> 1
                \<and> int_of_float (float_mul (float_div (of_int n) 255) 255) = n)"

definition byte_check :: "int \<Rightarrow> bool" where
  "byte_check n =
     (let s = nat (if n = 255 then 52 else 61 - bit_length n);
          m = rne_div (n * 2 ^ s) 255;
          t = nat (bit_length (255 * m) - 53);
          m' = rne_div (255 * m) (2 ^ t)
      in 2 ^ 52 * 255 \<le> n * 2 ^ s \<and> n * 2 ^ s < 2 ^ 53 * 255 \<and> 0 < m \<and> m \<le> 2 ^ s \<and> t \<le> s
         \<and> 2 ^ 52 * 2 ^ t \<le> 255 * m \<and> 255 * m < 2 ^ 53 * 2 ^ t \<and> 0 \<le> m'
         \<and> m' div 2 ^ (s - t) = n)"

text \<open>
  A colour string as the package \<^verbatim>\<open>colour\<close> writes it in \<^verbatim>\<open>hex_l\<close>: six hex digits,
  with or without one leading \<^verbatim>\<open>#\<close>.
\<close>

definition hex_color :: "string \<Rightarrow> bool" where
  "hex_color s = (hex6 s \<or> (take 1 s = ''#'' \<and> hex6 (drop 1 s)))"

text \<open>
  The rectangle that one pass of the inner loop of \<^verbatim>\<open>write_image\<close> draws at offset
  \<open>y\<close> for a stop whose channels are \<open>q\<close>, and the rectangles of consecutive passes.
\<close>

definition band_of :: "int \<Rightarrow> int \<Rightarrow> rat \<times> rat \<times> rat \<times> rat \<Rightarrow> (point \<times> point) \<times> rgb" where
  "band_of width y q =
     (case q of (r, g, b, a) \<Rightarrow>
        (((0, y), (width, y + STEP_SIZE - 2)),
         (int_of_float (float_mul r 255), int_of_float (float_mul g 255),
          int_of_float (float_mul b 255))))"

fun bands_from :: "int \<Rightarrow> int \<Rightarrow> (rat \<times> rat \<times> rat \<times> rat) list \<Rightarrow> ((point \<times> point) \<times> rgb) list" where
  "bands_from width y [] = []"
| "bands_from width y (q # qs) = band_of width y q # bands_from width (y + STEP_SIZE) qs"


text \<open>
  Concrete inputs for instantiating the theorems: a stand-in for the package
  \<^verbatim>\<open>colour\<close> whose colour objects are their hex strings and whose \<^verbatim>\<open>range_to\<close> gives
  \<open>n - 1\<close> copies of the first colour followed by the second, and a process that
  has printed nothing and written no file.
\<close>

definition stand_in_colour :: "string colour_lib" where
  "stand_in_colour =
     \<lparr>Color = (\<lambda>s. s), range_to = (\<lambda>a b n. replicate (nat n - 1) a @ [b]), hex_l = (\<lambda>c. c)\<rparr>"

definition empty_world :: world where
  "empty_world = \<lparr>stdout = [], files = Map.empty\<rparr>"

section \<open>The float model on byte values\<close>

lemma pow2_powi: "pow2 e = 2 powi e"
  by (simp add: pow2_def power_int_def inverse_eq_divide power_one_over)

lemma pow2_pos: "0 < pow2 e"
  by (simp add: pow2_powi zero_less_power_int)

lemma pow2_add: "pow2 (a + b) = pow2 a * pow2 b"
  by (simp add: pow2_powi power_int_add)

lemma pow2_minus: "pow2 (- a) = 1 / pow2 a"
  by (simp add: pow2_powi power_int_minus_divide)

lemma pow2_nat: "pow2 (int k) = of_int (2 ^ k)"
  by (simp add: pow2_def)

lemma pow2_less: "a < b \<Longrightarrow> pow2 a < pow2 b"
  by (simp add: pow2_powi power_int_strict_increasing)

lemma pow2_le: "a \<le> b \<Longrightarrow> pow2 a \<le> pow2 b"
  by (simp add: pow2_powi power_int_increasing)

lemma bit_length_bounds:
  "0 < n \<Longrightarrow> 0 < bit_length n \<and> 2 ^ nat (bit_length n - 1) \<le> n \<and> n < 2 ^ nat (bit_length n)"
proof (induction n rule: bit_length.induct)
  case (1 n)
  show ?case
  proof (cases "n = 1")
    case True
    have "bit_length 1 = 1"
      by (simp add: bit_length.simps[of 1] bit_length.simps[of 0])
    with True show ?thesis by simp
  next
    case False
    with "1.prems" have m: "0 < n div 2" by simp
    define k where "k = bit_length (n div 2)"
    from "1.IH" "1.prems" m have k: "0 < k" "2 ^ nat (k - 1) \<le> n div 2" "n div 2 < 2 ^ nat k"
      by (simp_all add: k_def)
    have bl: "bit_length n = k + 1"
      using "1.prems" by (simp add: bit_length.simps[of n] k_def)
    have p: "(2::int) ^ nat k = 2 * 2 ^ nat (k - 1)"
      using k(1) by (metis Suc_nat_eq_nat_zadd1 add.commute diff_add_cancel diff_ge_0_iff_ge int_one_le_iff_zero_less power_Suc)
    have q: "(2::int) ^ nat (k + 1) = 2 * 2 ^ nat k"
      using k(1) by (simp add: nat_add_distrib)
    have "2 ^ nat k \<le> n" using k(2) p by linarith
    moreover have "n < 2 ^ nat (k + 1)" using k(3) q by linarith
    ultimately show ?thesis using bl k(1) by simp
  qed
qed

lemma ilog2_bounds:
  assumes "0 < x"
  shows "pow2 (ilog2 x) \<le> x \<and> x < pow2 (ilog2 x + 1)"
proof (cases "1 \<le> x")
  case True
  define f where "f = \<lfloor>x\<rfloor>"
  have f: "0 < f" "of_int f \<le> x" "x < of_int (f + 1)"
    using True floor_correct[of x] by (simp_all add: f_def)
  define k where "k = bit_length f"
  from bit_length_bounds[OF f(1)] have k: "0 < k" "2 ^ nat (k - 1) \<le> f" "f < 2 ^ nat k"
    by (simp_all add: k_def)
  have e: "ilog2 x = k - 1" using True by (simp add: ilog2_def k_def f_def)
  have "pow2 (k - 1) = of_int (2 ^ nat (k - 1))" using k(1) by (simp add: pow2_def)
  also have "\<dots> \<le> of_int f" using k(2) by (simp only: of_int_le_iff)
  finally have lo: "pow2 (k - 1) \<le> x" using f(2) by linarith
  have "f + 1 \<le> 2 ^ nat k" using k(3) by simp
  then have "(of_int (f + 1) :: rat) \<le> of_int (2 ^ nat k)" by (simp only: of_int_le_iff)
  also have "\<dots> = pow2 k" using k(1) by (simp add: pow2_def)
  finally have hi: "x < pow2 k" using f(3) by linarith
  show ?thesis using lo hi e by simp
next
  case False
  then have x1: "x < 1" by simp
  define c where "c = \<lceil>1 / x\<rceil>"
  have inv: "1 < 1 / x" using assms x1 by simp
  have c: "1 / x \<le> of_int c" "of_int (c - 1) < 1 / x"
    using ceiling_correct[of "1 / x"] by (simp_all add: c_def)
  have c2: "0 < c - 1"
  proof -
    have "(1::rat) < of_int c" using inv c(1) by linarith
    then have "1 < c" by simp
    then show ?thesis by simp
  qed
  define k where "k = bit_length (c - 1)"
  from bit_length_bounds[OF c2] have k: "0 < k" "2 ^ nat (k - 1) \<le> c - 1" "c - 1 < 2 ^ nat k"
    by (simp_all add: k_def)
  have e: "ilog2 x = - k" using False by (simp add: ilog2_def k_def c_def)
  have "c \<le> 2 ^ nat k" using k(3) by simp
  then have "(of_int c :: rat) \<le> of_int (2 ^ nat k)" by (simp only: of_int_le_iff)
  also have "\<dots> = pow2 k" using k(1) by (simp add: pow2_def)
  finally have "1 / x \<le> pow2 k" using c(1) by linarith
  then have "1 \<le> pow2 k * x" using assms by (simp add: field_simps)
  then have lo: "pow2 (- k) \<le> x" using pow2_pos[of k] by (simp add: pow2_minus field_simps)
  have "pow2 (k - 1) = of_int (2 ^ nat (k - 1))" using k(1) by (simp add: pow2_def)
  also have "\<dots> \<le> of_int (c - 1)" using k(2) by (simp only: of_int_le_iff)
  finally have "pow2 (k - 1) < 1 / x" using c(2) by linarith
  then have "pow2 (k - 1) * x < 1" using assms by (simp add: field_simps)
  then have "x < 1 / pow2 (k - 1)" using pow2_pos[of "k - 1"] by (simp add: field_simps)
  then have hi: "x < pow2 (- k + 1)" using pow2_minus[of "k - 1"] by simp
  show ?thesis using lo hi e by simp
qed

lemma ilog2_unique:
  assumes "0 < x" "pow2 e \<le> x" "x < pow2 (e + 1)"
  shows "ilog2 x = e"
proof -
  from ilog2_bounds[OF assms(1)] have b: "pow2 (ilog2 x) \<le> x" "x < pow2 (ilog2 x + 1)" by simp_all
  have "\<not> ilog2 x + 1 \<le> e"
    using pow2_le[of "ilog2 x + 1" e] b(2) assms(2) by linarith
  moreover have "\<not> e + 1 \<le> ilog2 x"
    using pow2_le[of "e + 1" "ilog2 x"] b(1) assms(3) by linarith
  ultimately show ?thesis by linarith
qed


text \<open>
  Three checks of the rounding against binary64: the double nearest to \<open>1 / 10\<close>
  is \<open>3602879701896397 / 2 ^ 55\<close>; rounding moves a value by at most half a unit
  in the last place; and the result is a multiple of that unit by an integer of
  53 bits (or by \<open>2 ^ 53\<close>, the next power of two).
\<close>

lemma round_to_double_tenth: "round_to_double (1 / 10) = 3602879701896397 / 36028797018963968"
  by code_simp

lemma round_half_even_error: "\<bar>of_int (round_half_even x) - x\<bar> \<le> 1 / 2"
proof -
  define f where "f = \<lfloor>x\<rfloor>"
  define d where "d = x - of_int f"
  have d: "0 \<le> d" "d < 1"
    using floor_correct[of x] by (simp_all add: d_def f_def)
  have r: "round_half_even x =
      (if d < 1 / 2 then f else if 1 / 2 < d then f + 1 else if even f then f else f + 1)"
    by (simp add: round_half_even_def Let_def f_def d_def)
  have "of_int (round_half_even x) - x = of_int (round_half_even x) - of_int f - d"
    by (simp add: d_def)
  then show ?thesis
    using d unfolding r by (simp add: abs_if)
qed

lemma round_to_double_error:
  assumes "x \<noteq> 0"
  shows "\<bar>round_to_double x - x\<bar> \<le> pow2 (ilog2 \<bar>x\<bar> - 53)"
proof -
  define u where "u = pow2 (ilog2 \<bar>x\<bar> - 52)"
  have u: "0 < u" by (simp add: u_def pow2_pos)
  have "round_to_double x - x = (of_int (round_half_even (x / u)) - x / u) * u"
    using assms u by (simp add: round_to_double_def u_def[symmetric] field_simps)
  then have "\<bar>round_to_double x - x\<bar> = \<bar>of_int (round_half_even (x / u)) - x / u\<bar> * u"
    using u by (simp add: abs_mult)
  also have "\<dots> \<le> 1 / 2 * u"
    using round_half_even_error[of "x / u"] u by (intro mult_right_mono) simp_all
  also have "1 / 2 * u = pow2 (ilog2 \<bar>x\<bar> - 53)"
  proof -
    have "pow2 (ilog2 \<bar>x\<bar> - 52) = pow2 (ilog2 \<bar>x\<bar> - 53) * pow2 1"
      by (simp flip: pow2_add)
    then show ?thesis by (simp add: u_def pow2_def)
  qed
  finally show ?thesis .
qed

lemma round_half_even_ge: "of_int k \<le> x \<Longrightarrow> k \<le> round_half_even x"
proof -
  assume "of_int k \<le> x"
  then have "k \<le> \<lfloor>x\<rfloor>" by (simp add: le_floor_iff)
  then show ?thesis
    by (simp add: round_half_even_def Let_def)
qed

lemma round_half_even_le: "x \<le> of_int k \<Longrightarrow> round_half_even x \<le> k"
proof -
  assume k: "x \<le> of_int k"
  show ?thesis
  proof (cases "x = of_int \<lfloor>x\<rfloor>")
    case True
    then have "x - of_int \<lfloor>x\<rfloor> = 0" by simp
    then have "round_half_even x = \<lfloor>x\<rfloor>"
      by (simp add: round_half_even_def Let_def)
    moreover have "\<lfloor>x\<rfloor> \<le> k" using k by (simp add: floor_le_iff)
    ultimately show ?thesis by simp
  next
    case False
    then have "of_int \<lfloor>x\<rfloor> < x"
      by (metis of_int_floor_le order.not_eq_order_implies_strict)
    then have "(of_int \<lfloor>x\<rfloor> :: rat) < of_int k" using k by simp
    then have "\<lfloor>x\<rfloor> + 1 \<le> k" by simp
    then show ?thesis
      by (simp add: round_half_even_def Let_def)
  qed
qed

lemma round_to_double_mantissa:
  assumes "x \<noteq> 0"
  shows "\<exists>m. round_to_double x = of_int m * pow2 (ilog2 \<bar>x\<bar> - 52)
    \<and> 2 ^ 52 \<le> \<bar>m\<bar> \<and> \<bar>m\<bar> \<le> 2 ^ 53"
proof -
  define e where "e = ilog2 \<bar>x\<bar>"
  define u where "u = pow2 (e - 52)"
  define m where "m = round_half_even (x / u)"
  have u: "0 < u" by (simp add: u_def pow2_pos)
  have r: "round_to_double x = of_int m * u"
    using assms by (simp add: round_to_double_def Let_def m_def u_def e_def)
  from assms have "0 < \<bar>x\<bar>" by simp
  from ilog2_bounds[OF this] have b: "pow2 e \<le> \<bar>x\<bar>" "\<bar>x\<bar> < pow2 (e + 1)"
    by (simp_all add: e_def)
  have "pow2 52 * u = pow2 (52 + (e - 52))" "pow2 53 * u = pow2 (53 + (e - 52))"
    unfolding u_def by (simp_all only: pow2_add)
  then have "pow2 e = pow2 52 * u" "pow2 (e + 1) = pow2 53 * u"
    by (simp_all add: add.commute)
  with b u have s: "pow2 52 \<le> \<bar>x\<bar> / u" "\<bar>x\<bar> / u < pow2 53"
    by (simp_all add: field_simps)
  have p: "pow2 52 = of_int (2 ^ 52)" "pow2 53 = of_int (2 ^ 53)"
    by (simp_all add: pow2_def)
  have "2 ^ 52 \<le> \<bar>m\<bar> \<and> \<bar>m\<bar> \<le> 2 ^ 53"
  proof (cases "0 < x")
    case True
    with s have y: "of_int (2 ^ 52) \<le> x / u" "x / u \<le> of_int (2 ^ 53)"
      by (simp_all add: p)
    have "2 ^ 52 \<le> m" "m \<le> 2 ^ 53"
      unfolding m_def using round_half_even_ge[OF y(1)] round_half_even_le[OF y(2)] by simp_all
    then show ?thesis by simp
  next
    case False
    with assms have "\<bar>x\<bar> = - x" by simp
    with s u have y: "x / u \<le> of_int (- (2 ^ 52))" "of_int (- (2 ^ 53)) \<le> x / u"
      by (simp_all add: p)
    have "m \<le> - (2 ^ 52)" "- (2 ^ 53) \<le> m"
      unfolding m_def using round_half_even_le[OF y(1)] round_half_even_ge[OF y(2)] by simp_all
    then show ?thesis by simp
  qed
  with r show ?thesis
    unfolding u_def e_def by blast
qed

lemma round_to_double_scaled:
  assumes "0 < x" "pow2 52 \<le> x * pow2 s" "x * pow2 s < pow2 53"
  shows "round_to_double x = of_int (round_half_even (x * pow2 s)) * pow2 (- s)"
proof -
  have "pow2 (52 - s) * pow2 s = pow2 52" "pow2 (52 - s + 1) * pow2 s = pow2 53"
    by (simp_all flip: pow2_add)
  with assms(2,3) have "pow2 (52 - s) * pow2 s \<le> x * pow2 s" "x * pow2 s < pow2 (52 - s + 1) * pow2 s"
    by simp_all
  then have "pow2 (52 - s) \<le> x" "x < pow2 (52 - s + 1)"
    using pow2_pos[of s] by simp_all
  then have e: "ilog2 x = 52 - s"
    using assms(1) by (rule ilog2_unique[rotated 1])
  have "x / pow2 (- s) = x * pow2 s"
    by (simp add: pow2_minus)
  then show ?thesis
    using assms(1) e by (simp add: round_to_double_def)
qed

lemma round_half_even_div:
  assumes "0 < b"
  shows "round_half_even (of_int a / of_int b) = rne_div a b"
proof -
  have fl: "\<lfloor>(of_int a / of_int b :: rat)\<rfloor> = a div b"
    by (rule floor_divide_of_int_eq)
  have "(of_int a :: rat) = of_int (b * (a div b) + a mod b)"
    by simp
  then have "(of_int a :: rat) = of_int b * of_int (a div b) + of_int (a mod b)"
    by (simp only: of_int_add of_int_mult)
  then have "(of_int a / of_int b :: rat) = of_int (a div b) + of_int (a mod b) / of_int b"
    using assms by (simp add: field_simps)
  then have d: "(of_int a / of_int b :: rat) - of_int (a div b) = of_int (a mod b) / of_int b"
    by simp
  have lt: "(of_int (a mod b) / of_int b :: rat) < 1 / 2 \<longleftrightarrow> 2 * (a mod b) < b"
  proof -
    have "(of_int (a mod b) / of_int b :: rat) < 1 / 2 \<longleftrightarrow> (of_int (2 * (a mod b)) :: rat) < of_int b"
      using assms by (simp add: field_simps)
    then show ?thesis by (simp only: of_int_less_iff)
  qed
  have gt: "(1 / 2 :: rat) < of_int (a mod b) / of_int b \<longleftrightarrow> b < 2 * (a mod b)"
  proof -
    have "(1 / 2 :: rat) < of_int (a mod b) / of_int b \<longleftrightarrow> (of_int b :: rat) < of_int (2 * (a mod b))"
      using assms by (simp add: field_simps)
    then show ?thesis by (simp only: of_int_less_iff)
  qed
  show ?thesis
    unfolding round_half_even_def rne_div_def Let_def fl d lt gt ..
qed

lemma float_div_255:
  assumes "2 ^ 52 * 255 \<le> n * 2 ^ s" "n * 2 ^ s < 2 ^ 53 * 255"
  shows "float_div (of_int n) 255 = of_int (rne_div (n * 2 ^ s) 255) * pow2 (- int s)"
proof -
  have n: "0 < n"
  proof (rule ccontr)
    assume "\<not> 0 < n"
    then have "n * 2 ^ s \<le> 0" by (simp add: mult_le_0_iff)
    with assms(1) show False by simp
  qed
  have sc: "(of_int n / 255 :: rat) * pow2 (int s) = of_int (n * 2 ^ s) / of_int 255"
    by (simp add: pow2_nat)
  have "(of_int (2 ^ 52 * 255) :: rat) \<le> of_int (n * 2 ^ s)"
    using assms(1) by (simp only: of_int_le_iff)
  then have lo: "pow2 52 \<le> (of_int n / 255 :: rat) * pow2 (int s)"
    unfolding sc by (simp add: pow2_def field_simps)
  have "(of_int (n * 2 ^ s) :: rat) < of_int (2 ^ 53 * 255)"
    using assms(2) by (simp only: of_int_less_iff)
  then have hi: "(of_int n / 255 :: rat) * pow2 (int s) < pow2 53"
    unfolding sc by (simp add: pow2_def field_simps)
  have r: "round_half_even (of_int (n * 2 ^ s) / of_int 255) = rne_div (n * 2 ^ s) 255"
    by (rule round_half_even_div) simp
  have "0 < (of_int n / 255 :: rat)" using n by simp
  from round_to_double_scaled[OF this lo hi] show ?thesis
    unfolding float_div_def by (simp only: sc r)
qed

lemma float_mul_255:
  assumes "t \<le> s" "2 ^ 52 * 2 ^ t \<le> 255 * m" "255 * m < 2 ^ 53 * 2 ^ t"
  shows "float_mul (of_int m * pow2 (- int s)) 255 = of_int (rne_div (255 * m) (2 ^ t)) * pow2 (- int (s - t))"
proof -
  have m: "0 < m"
  proof (rule ccontr)
    assume "\<not> 0 < m"
    then have "255 * m \<le> 0" by simp
    moreover have "(0::int) < 2 ^ 52 * 2 ^ t" by simp
    ultimately show False using assms(2) by linarith
  qed
  have "pow2 (- int s) * pow2 (int (s - t)) = pow2 (- int t)"
    using assms(1) by (simp flip: pow2_add add: of_nat_diff)
  moreover have "(of_int m * pow2 (- int s) * 255 :: rat) * pow2 (int (s - t))
      = of_int (255 * m) * (pow2 (- int s) * pow2 (int (s - t)))"
    by simp
  ultimately have "(of_int m * pow2 (- int s) * 255 :: rat) * pow2 (int (s - t))
      = of_int (255 * m) * pow2 (- int t)"
    by (simp only:)
  then have sc: "(of_int m * pow2 (- int s) * 255 :: rat) * pow2 (int (s - t)) = of_int (255 * m) / of_int (2 ^ t)"
    by (simp add: pow2_minus pow2_nat)
  have "(of_int (2 ^ 52 * 2 ^ t) :: rat) \<le> of_int (255 * m)"
    using assms(2) by (simp only: of_int_le_iff)
  then have lo: "pow2 52 \<le> (of_int m * pow2 (- int s) * 255 :: rat) * pow2 (int (s - t))"
    unfolding sc by (simp add: pow2_def field_simps)
  have "(of_int (255 * m) :: rat) < of_int (2 ^ 53 * 2 ^ t)"
    using assms(3) by (simp only: of_int_less_iff)
  then have hi: "(of_int m * pow2 (- int s) * 255 :: rat) * pow2 (int (s - t)) < pow2 53"
    unfolding sc by (simp add: pow2_def field_simps)
  have r: "round_half_even (of_int (255 * m) / of_int (2 ^ t)) = rne_div (255 * m) (2 ^ t)"
    by (rule round_half_even_div) simp
  have "0 < (of_int m * pow2 (- int s) * 255 :: rat)" using m pow2_pos[of "- int s"] by simp
  from round_to_double_scaled[OF this lo hi] show ?thesis
    unfolding float_mul_def by (simp only: sc r)
qed

lemma int_of_float_scaled:
  assumes "0 \<le> m"
  shows "int_of_float (of_int m * pow2 (- int k)) = m div 2 ^ k"
proof -
  have "(of_int m * pow2 (- int k) :: rat) = of_int m / of_int (2 ^ k)"
    by (simp add: pow2_minus pow2_nat)
  moreover have "(0::rat) \<le> of_int m / of_int (2 ^ k)" using assms by simp
  ultimately show ?thesis
    by (simp only: int_of_float_def floor_divide_of_int_eq if_True)
qed

lemma byte_check_sound:
  assumes "byte_check n"
  shows "byte_ok n"
proof -
  define s where "s = nat (if n = 255 then 52 else 61 - bit_length n)"
  define m where "m = rne_div (n * 2 ^ s) 255"
  define t where "t = nat (bit_length (255 * m) - 53)"
  define m' where "m' = rne_div (255 * m) (2 ^ t)"
  from assms have c: "2 ^ 52 * 255 \<le> n * 2 ^ s" "n * 2 ^ s < 2 ^ 53 * 255" "0 < m" "m \<le> 2 ^ s" "t \<le> s"
    "2 ^ 52 * 2 ^ t \<le> 255 * m" "255 * m < 2 ^ 53 * 2 ^ t" "0 \<le> m'" "m' div 2 ^ (s - t) = n"
    unfolding byte_check_def Let_def s_def[symmetric] m_def[symmetric] t_def[symmetric] m'_def[symmetric]
    by simp_all
  have q: "float_div (of_int n) 255 = of_int m * pow2 (- int s)"
    using float_div_255[OF c(1,2)] by (simp add: m_def)
  have p: "float_mul (of_int m * pow2 (- int s)) 255 = of_int m' * pow2 (- int (s - t))"
    using float_mul_255[OF c(5,6,7)] by (simp add: m'_def)
  have "int_of_float (float_mul (float_div (of_int n) 255) 255) = n"
    unfolding q p using int_of_float_scaled[OF c(8)] c(9) by simp
  moreover have "(0::rat) \<le> of_int m * pow2 (- int s)"
    using c(3) pow2_pos[of "- int s"] by simp
  moreover have "(of_int m * pow2 (- int s) :: rat) \<le> 1"
  proof -
    have "(of_int m :: rat) \<le> of_int (2 ^ s)" using c(4) by (simp only: of_int_le_iff)
    then show ?thesis by (simp add: pow2_minus pow2_nat field_simps)
  qed
  ultimately show ?thesis
    unfolding byte_ok_def q by simp
qed

lemma byte_checks: "list_all byte_check [1..255]"
  by code_simp

lemma byte_ok_zero: "byte_ok 0"
  by (simp add: byte_ok_def float_div_def float_mul_def round_to_double_def int_of_float_def)

lemma byte_ok_all:
  assumes "0 \<le> n" "n \<le> 255"
  shows "byte_ok n"
proof (cases "n = 0")
  case True
  then show ?thesis by (simp add: byte_ok_zero)
next
  case False
  with assms have "n \<in> set [1..255]" by simp
  with byte_checks have "byte_check n" by (simp only: list_all_iff)
  then show ?thesis by (rule byte_check_sound)
qed

section \<open>\<^verbatim>\<open>hex_to_rgba\<close> on hex colour strings\<close>

lemma hex_digit_not_space: "is_hex_digit c \<Longrightarrow> \<not> is_space c"
  by (auto simp: is_hex_digit_def is_space_def digit_value_def Let_def split: if_splits)

lemma hex_digit_not_special:
  assumes "is_hex_digit c"
  shows "c \<noteq> CHR ''+''" "c \<noteq> CHR ''-''" "c \<noteq> CHR ''x''" "c \<noteq> CHR ''X''"
    "c \<noteq> CHR ''_''" "c \<noteq> CHR ''#''"
  using assms by (auto simp: is_hex_digit_def digit_value_def)

lemma int_base16_pair:
  assumes "is_hex_digit a" "is_hex_digit b"
  shows "int_base16 [a, b] = Inr (16 * int (digit_value a) + int (digit_value b))"
  using assms hex_digit_not_space[of a] hex_digit_not_special[of a] hex_digit_not_special[of b]
  by (simp add: int_base16_def digit_or_underscore_def hex_value_def)

lemma hex6_digits:
  assumes "hex6 h"
  obtains c1 c2 c3 c4 c5 c6 where "h = [c1, c2, c3, c4, c5, c6]"
    "is_hex_digit c1" "is_hex_digit c2" "is_hex_digit c3"
    "is_hex_digit c4" "is_hex_digit c5" "is_hex_digit c6"
proof -
  from assms have "length h = Suc (Suc (Suc (Suc (Suc (Suc 0)))))"
    by (simp add: hex6_def)
  then obtain c1 c2 c3 c4 c5 c6 where h: "h = [c1, c2, c3, c4, c5, c6]"
    by (auto simp: length_Suc_conv)
  with assms that show thesis
    by (simp add: hex6_def)
qed

lemma hex_to_rgba_hash: "hex_to_rgba (CHR ''#'' # s) = hex_to_rgba s"
  by (simp add: hex_to_rgba_def lstrip_hash_def)

lemma hex_to_rgba_digits:
  assumes "hex6 h"
  shows "hex_to_rgba (h @ t) =
    Inr (float_div (of_int (byte_at h 0)) 255, float_div (of_int (byte_at h 2)) 255,
         float_div (of_int (byte_at h 4)) 255, 1)"
proof -
  from assms obtain c1 c2 c3 c4 c5 c6 where h: "h = [c1, c2, c3, c4, c5, c6]"
    and d: "is_hex_digit c1" "is_hex_digit c2" "is_hex_digit c3"
      "is_hex_digit c4" "is_hex_digit c5" "is_hex_digit c6"
    by (rule hex6_digits)
  have "lstrip_hash (h @ t) = h @ t"
    using hex_digit_not_special(6)[OF d(1)] by (simp add: h lstrip_hash_def)
  moreover have "slice (h @ t) 0 2 = [c1, c2]" "slice (h @ t) 2 4 = [c3, c4]"
    "slice (h @ t) 4 6 = [c5, c6]"
    by (simp_all add: h slice_def)
  ultimately show ?thesis
    using d by (simp add: hex_to_rgba_def int_base16_pair byte_at_def h)
qed

lemma byte_at_range:
  assumes "hex6 h" "i < 5"
  shows "0 \<le> byte_at h i \<and> byte_at h i \<le> 255"
proof -
  from assms have "is_hex_digit (h ! i)" "is_hex_digit (h ! (i + 1))"
    by (simp_all add: hex6_def list_all_length)
  then show ?thesis
    by (simp add: byte_at_def is_hex_digit_def)
qed



text \<open>
  C4: for a colour string of six hex digits, converting the channels of
  \<^verbatim>\<open>hex_to_rgba\<close> back with the truncating \<^verbatim>\<open>int(value * 255)\<close> gives the byte
  value of each digit pair again, for every byte value. The conversion therefore
  stays within the bias of one that truncation allows.
\<close>

theorem hex_to_rgba_round_trip:
  assumes "hex6 h" "s = h \<or> s = CHR ''#'' # h"
  shows "\<exists>r g b a. hex_to_rgba s = Inr (r, g, b, a)
    \<and> int_of_float (float_mul r 255) = byte_at h 0
    \<and> int_of_float (float_mul g 255) = byte_at h 2
    \<and> int_of_float (float_mul b 255) = byte_at h 4
    \<and> int_of_float (float_mul a 255) = 255"
proof -
  have "hex_to_rgba s = hex_to_rgba (h @ [])"
    using assms(2) by (auto simp: hex_to_rgba_hash)
  then have "hex_to_rgba s =
      Inr (float_div (of_int (byte_at h 0)) 255, float_div (of_int (byte_at h 2)) 255,
           float_div (of_int (byte_at h 4)) 255, 1)"
    by (simp only: hex_to_rgba_digits[OF assms(1)])
  moreover have "byte_ok (byte_at h 0)" "byte_ok (byte_at h 2)" "byte_ok (byte_at h 4)"
    using byte_at_range[OF assms(1)] by (simp_all add: byte_ok_all)
  moreover have "int_of_float (float_mul 1 255) = 255"
    by code_simp
  ultimately show ?thesis
    by (simp add: byte_ok_def)
qed

theorem hex_to_rgba_round_trip_witness:
  "hex6 ''71E05A'' \<and> (\<exists>r g b a. hex_to_rgba ''#71E05A'' = Inr (r, g, b, a)
    \<and> int_of_float (float_mul r 255) = 113
    \<and> int_of_float (float_mul g 255) = 224
    \<and> int_of_float (float_mul b 255) = 90)"
proof -
  have h: "hex6 ''71E05A''"
    by (simp add: hex6_def is_hex_digit_def digit_value_def)
  have b: "byte_at ''71E05A'' 0 = 113" "byte_at ''71E05A'' 2 = 224" "byte_at ''71E05A'' 4 = 90"
    by (simp_all add: byte_at_def digit_value_def)
  from hex_to_rgba_round_trip[OF h, of "''#71E05A''"] show ?thesis
    using h by (auto simp: b)
qed

text \<open>
  C10: when the six characters after an optional single leading \<^verbatim>\<open>#\<close> are hex
  digits, \<^verbatim>\<open>hex_to_rgba\<close> reads only those six: whatever follows them (an alpha
  pair, for instance) leaves the result unchanged, and the alpha returned is 1.
\<close>

theorem hex_to_rgba_ignores_tail:
  assumes "hex6 h" "s = h @ t \<or> s = CHR ''#'' # h @ t"
  shows "hex_to_rgba s = hex_to_rgba h \<and> (\<exists>r g b. hex_to_rgba s = Inr (r, g, b, 1))"
proof -
  have "hex_to_rgba s = hex_to_rgba (h @ t)"
    using assms(2) by (auto simp: hex_to_rgba_hash)
  moreover have "hex_to_rgba h = hex_to_rgba (h @ [])"
    by simp
  ultimately show ?thesis
    by (simp only: hex_to_rgba_digits[OF assms(1)]) simp
qed

theorem hex_to_rgba_ignores_tail_witness:
  "hex6 ''2F4858'' \<and> hex_to_rgba ''#2F485880'' = hex_to_rgba ''2F4858''
   \<and> (\<exists>r g b. hex_to_rgba ''#2F485880'' = Inr (r, g, b, 1))"
proof -
  have h: "hex6 ''2F4858''"
    by (simp add: hex6_def is_hex_digit_def digit_value_def)
  have e: "''#2F485880'' = ''2F4858'' @ ''80'' \<or> ''#2F485880'' = CHR ''#'' # ''2F4858'' @ ''80''"
    by simp
  from hex_to_rgba_ignores_tail[OF h e] h show ?thesis
    by blast
qed

section \<open>The drawing loop\<close>


lemma bands_from_append:
  "bands_from width y (qs @ qs') =
     bands_from width y qs @ bands_from width (y + STEP_SIZE * int (length qs)) qs'"
  by (induction qs arbitrary: y) (simp_all add: algebra_simps)


lemma draw_sub_array_parsed:
  "map (\<lambda>c. hex_to_rgba (hx c)) cs = map Inr qs \<Longrightarrow>
   draw_sub_array hx width cs (y, im) =
     Inr (y + STEP_SIZE * int (length cs),
          im\<lparr>im_rectangles := im_rectangles im @ bands_from width y qs\<rparr>)"
proof (induction cs arbitrary: qs y im)
  case Nil
  then show ?case by simp
next
  case (Cons c cs)
  then obtain q qs' where qs: "qs = q # qs'" "hex_to_rgba (hx c) = Inr q"
    "map (\<lambda>c. hex_to_rgba (hx c)) cs = map Inr qs'"
    by (cases qs) auto
  obtain r g b a where q: "q = (r, g, b, a)" by (cases q) auto
  show ?case
    using Cons.IH[OF qs(3)] qs(2)
    by (simp add: qs(1) q band_of_def draw_rectangle_def algebra_simps)
qed

lemma draw_sub_array_Inr:
  "draw_sub_array hx width cs st = Inr st' \<Longrightarrow>
   \<exists>qs. map (\<lambda>c. hex_to_rgba (hx c)) cs = map Inr qs"
proof (induction cs arbitrary: st)
  case Nil
  then show ?case by simp
next
  case (Cons c cs)
  obtain y im where st: "st = (y, im)" by (cases st) auto
  from Cons.prems obtain q where q: "hex_to_rgba (hx c) = Inr q"
    by (cases "hex_to_rgba (hx c)") (simp_all add: st)
  obtain r g b a where qq: "q = (r, g, b, a)" by (cases q) auto
  from Cons.prems q qq obtain st2 where "draw_sub_array hx width cs st2 = Inr st'"
    by (simp add: st)
  from Cons.IH[OF this] obtain qs where "map (\<lambda>c. hex_to_rgba (hx c)) cs = map Inr qs" ..
  with q have "map (\<lambda>c. hex_to_rgba (hx c)) (c # cs) = map Inr (q # qs)" by simp
  then show ?case ..
qed

lemma draw_gradient_parsed:
  "map (\<lambda>c. hex_to_rgba (hx c)) (concat colors) = map Inr qs \<Longrightarrow>
   draw_gradient hx width colors (y, im) =
     Inr (y + STEP_SIZE * int (length (concat colors)),
          im\<lparr>im_rectangles := im_rectangles im @ bands_from width y qs\<rparr>)"
proof (induction colors arbitrary: qs y im)
  case Nil
  then show ?case by simp
next
  case (Cons cs colors)
  from Cons.prems obtain qs1 qs2 where qs: "qs = qs1 @ qs2"
    "map (\<lambda>c. hex_to_rgba (hx c)) cs = map Inr qs1"
    "map (\<lambda>c. hex_to_rgba (hx c)) (concat colors) = map Inr qs2"
    by (auto simp: append_eq_map_conv)
  have len: "length qs1 = length cs"
    using qs(2) by (metis length_map)
  show ?case
    using draw_sub_array_parsed[OF qs(2), of width y im] Cons.IH[OF qs(3)]
    by (simp add: qs(1) bands_from_append len algebra_simps)
qed

lemma draw_gradient_Inr:
  "draw_gradient hx width colors st = Inr st' \<Longrightarrow>
   \<exists>qs. map (\<lambda>c. hex_to_rgba (hx c)) (concat colors) = map Inr qs"
proof (induction colors arbitrary: st)
  case Nil
  then show ?case by simp
next
  case (Cons cs colors)
  from Cons.prems obtain st2 where s: "draw_sub_array hx width cs st = Inr st2"
    "draw_gradient hx width colors st2 = Inr st'"
    by (cases "draw_sub_array hx width cs st") simp_all
  from draw_sub_array_Inr[OF s(1)] obtain qs1
    where q1: "map (\<lambda>c. hex_to_rgba (hx c)) cs = map Inr qs1" ..
  from Cons.IH[OF s(2)] obtain qs2
    where q2: "map (\<lambda>c. hex_to_rgba (hx c)) (concat colors) = map Inr qs2" ..
  from q1 q2 have "map (\<lambda>c. hex_to_rgba (hx c)) (concat (cs # colors)) = map Inr (qs1 @ qs2)"
    by simp
  then show ?case ..
qed

lemma write_image_parsed:
  assumes "colors \<noteq> []" "map (\<lambda>c. hex_to_rgba (hx c)) (concat colors) = map Inr qs"
  shows "write_image hx colors w =
    (None, w\<lparr>files := (files w)(''gradient.png'' \<mapsto>
       \<lparr>im_mode = ''RGB'', im_width = 50,
        im_height = (int (length colors) - 1) * STEPS * STEP_SIZE,
        im_background = (255, 255, 255), im_rectangles = bands_from 50 0 qs\<rparr>)\<rparr>)"
proof -
  from assms(1) have "0 < length colors" by simp
  then have "\<not> (int (length colors) - 1) * STEPS * STEP_SIZE < 0"
    by (simp add: STEPS_def STEP_SIZE_def)
  then show ?thesis
    using draw_gradient_parsed[OF assms(2)]
    by (simp add: write_image_def canvas_size_def Image_new_def image_save_def)
qed

lemma write_image_None:
  assumes "write_image hx colors w = (None, w')"
  shows "colors \<noteq> [] \<and> (\<exists>qs. map (\<lambda>c. hex_to_rgba (hx c)) (concat colors) = map Inr qs)"
proof -
  from assms obtain im where im: "Image_new ''RGB'' (canvas_size colors) (255, 255, 255) = Inr im"
    by (cases "Image_new ''RGB'' (canvas_size colors) (255, 255, 255)") (simp_all add: write_image_def)
  then have "\<not> (int (length colors) - 1) * STEPS * STEP_SIZE < 0"
    by (simp add: Image_new_def canvas_size_def split: if_splits)
  then have ne: "colors \<noteq> []"
    by (auto simp: STEPS_def STEP_SIZE_def)
  from assms im obtain st where "draw_gradient hx (fst (canvas_size colors)) colors (0, im) = Inr st"
    by (cases "draw_gradient hx (fst (canvas_size colors)) colors (0, im)")
       (simp_all add: write_image_def)
  from draw_gradient_Inr[OF this] ne show ?thesis by simp
qed

lemma write_image_empty: "write_image hx [] w = (Some ValueError, w)"
  by (simp add: write_image_def canvas_size_def Image_new_def STEPS_def STEP_SIZE_def)



section \<open>The print passes and the script\<close>








lemma length_build_colors: "length (build_colors lib seeds) = length seeds - 1"
  by (simp add: build_colors_def)

lemma build_colors_nth:
  "i < length seeds - 1 \<Longrightarrow>
   build_colors lib seeds ! i = range_to lib (seeds ! i) (seeds ! (i + 1)) STEPS"
  by (simp add: build_colors_def)







section \<open>What the script draws and prints\<close>

lemma write_image_saved:
  assumes "write_image hx colors w = (None, w')"
  obtains qs where "colors \<noteq> []"
    "map (\<lambda>c. hex_to_rgba (hx c)) (concat colors) = map Inr qs"
    "w' = w\<lparr>files := (files w)(''gradient.png'' \<mapsto>
       \<lparr>im_mode = ''RGB'', im_width = 50,
        im_height = (int (length colors) - 1) * STEPS * STEP_SIZE,
        im_background = (255, 255, 255), im_rectangles = bands_from 50 0 qs\<rparr>)\<rparr>"
proof -
  from write_image_None[OF assms] obtain qs where ne: "colors \<noteq> []"
    and qs: "map (\<lambda>c. hex_to_rgba (hx c)) (concat colors) = map Inr qs"
    by blast
  from write_image_parsed[OF ne qs, of w] assms that[OF ne qs] show thesis
    by simp
qed



text \<open>
  C1: \<^verbatim>\<open>write_image\<close> takes the canvas height from the number of segments less
  one, and the segments of \<open>n\<close> seeds are \<open>n - 1\<close> already. For two seeds, the
  seeds \<^verbatim>\<open>#000000\<close> and \<^verbatim>\<open>#FFFFFF\<close> among them, the size passed to \<^verbatim>\<open>Image.new\<close> is
  50 by 0, not 50 by 100.
\<close>

theorem canvas_size_two_seeds:
  "canvas_size (build_colors lib [seed1, seed2]) = (50, 0)"
  by (simp add: canvas_size_def build_colors_def)

text \<open>
  In general the canvas is one segment short of the bands drawn on it; for the
  six seeds of the script it is 50 by 400, and the bands reach down to row 498.
  The image saved has the size computed.
\<close>

lemma canvas_size_seeds:
  "seeds \<noteq> [] \<Longrightarrow> canvas_size (build_colors lib seeds) = (50, (int (length seeds) - 2) * 100)"
  by (cases seeds) (simp_all add: canvas_size_def length_build_colors STEPS_def STEP_SIZE_def)

lemma canvas_size_initial_colors:
  "canvas_size (build_colors lib (initial_colors lib)) = (50, 400)"
  by (simp add: canvas_size_def length_build_colors initial_colors_def STEPS_def STEP_SIZE_def)

lemma write_image_canvas:
  assumes "write_image hx colors w = (None, w')"
  shows "\<exists>im. files w' ''gradient.png'' = Some im \<and> (im_width im, im_height im) = canvas_size colors"
proof -
  from assms obtain qs where "w' = w\<lparr>files := (files w)(''gradient.png'' \<mapsto>
       \<lparr>im_mode = ''RGB'', im_width = 50,
        im_height = (int (length colors) - 1) * STEPS * STEP_SIZE,
        im_background = (255, 255, 255), im_rectangles = bands_from 50 0 qs\<rparr>)\<rparr>"
    by (rule write_image_saved)
  then show ?thesis
    by (simp add: canvas_size_def)
qed

text \<open>
  C3: for an empty seed list or a single seed there is no segment, the size
  requested for the canvas is 50 by -100, \<^verbatim>\<open>Image.new\<close> raises, nothing catches
  the exception, and the run ends with nothing printed and no file written.
\<close>

theorem script_degenerate_seeds:
  assumes "length seeds \<le> 1"
  shows "build_colors lib seeds = [] \<and> canvas_size (build_colors lib seeds) = (50, - 100)
    \<and> script lib seeds w = (Some ValueError, w)"
proof -
  have e: "build_colors lib seeds = []"
    using assms by (simp add: build_colors_def)
  then show ?thesis
    by (simp add: canvas_size_def STEPS_def STEP_SIZE_def script_def write_image_empty)
qed

theorem script_degenerate_seeds_witness:
  "build_colors stand_in_colour [] = [] \<and> build_colors stand_in_colour [''#E6F800''] = []
   \<and> canvas_size (build_colors stand_in_colour [''#E6F800'']) = (50, - 100)
   \<and> script stand_in_colour [] empty_world = (Some ValueError, empty_world)
   \<and> script stand_in_colour [''#E6F800''] empty_world = (Some ValueError, empty_world)"
proof -
  have "length ([] :: string list) \<le> 1" "length [''#E6F800''] \<le> 1"
    by simp_all
  from script_degenerate_seeds[OF this(1), of stand_in_colour empty_world]
    script_degenerate_seeds[OF this(2), of stand_in_colour empty_world]
  show ?thesis by blast
qed





text \<open>
  C9: when \<^verbatim>\<open>range_to\<close> starts at its first colour and ends at its second,
  segment \<open>i\<close> ends with seed \<open>i + 1\<close> and segment \<open>i + 1\<close> starts with it, so
  the sequence of stops that both print passes and the drawing loop traverse
  holds every interior seed twice in a row.
\<close>

theorem adjacent_segments_share_seed:
  assumes "\<forall>a b. range_to lib a b STEPS \<noteq> [] \<and> hd (range_to lib a b STEPS) = a
      \<and> last (range_to lib a b STEPS) = b"
    "i + 1 < length (build_colors lib seeds)"
  shows "last (build_colors lib seeds ! i) = seeds ! (i + 1)
    \<and> hd (build_colors lib seeds ! (i + 1)) = seeds ! (i + 1)
    \<and> (\<exists>pre post. concat (build_colors lib seeds) = pre @ [seeds ! (i + 1), seeds ! (i + 1)] @ post)"
proof -
  let ?colors = "build_colors lib seeds"
  from assms(2) have i: "i < length seeds - 1" "i + 1 < length seeds - 1"
    by (simp_all add: length_build_colors)
  have a: "?colors ! i = range_to lib (seeds ! i) (seeds ! (i + 1)) STEPS"
    using i(1) by (rule build_colors_nth)
  have b: "?colors ! (i + 1) = range_to lib (seeds ! (i + 1)) (seeds ! (i + 1 + 1)) STEPS"
    using i(2) by (rule build_colors_nth)
  have la: "?colors ! i \<noteq> []" "last (?colors ! i) = seeds ! (i + 1)"
    unfolding a using assms(1) by blast+
  have hb: "?colors ! (i + 1) \<noteq> []" "hd (?colors ! (i + 1)) = seeds ! (i + 1)"
    unfolding b using assms(1) by blast+
  have "?colors = take i ?colors @ ?colors ! i # drop (Suc i) ?colors"
    using assms(2) by (simp add: id_take_nth_drop)
  moreover have "drop (Suc i) ?colors = ?colors ! (i + 1) # drop (Suc (Suc i)) ?colors"
    using assms(2) by (simp add: Cons_nth_drop_Suc)
  ultimately have "?colors = take i ?colors @ ?colors ! i # ?colors ! (i + 1) # drop (Suc (Suc i)) ?colors"
    by simp
  then have "concat ?colors = concat (take i ?colors) @ ?colors ! i @ ?colors ! (i + 1)
      @ concat (drop (Suc (Suc i)) ?colors)"
    by (metis concat.simps(2) concat_append)
  moreover have "?colors ! i = butlast (?colors ! i) @ [seeds ! (i + 1)]"
    using la by (metis append_butlast_last_id)
  moreover have "?colors ! (i + 1) = seeds ! (i + 1) # tl (?colors ! (i + 1))"
    using hb by (metis list.collapse)
  ultimately have "concat ?colors = (concat (take i ?colors) @ butlast (?colors ! i))
      @ [seeds ! (i + 1), seeds ! (i + 1)] @ (tl (?colors ! (i + 1)) @ concat (drop (Suc (Suc i)) ?colors))"
    by (metis append.assoc append_Cons append_Nil)
  with la(2) hb(2) show ?thesis by blast
qed

theorem adjacent_segments_share_seed_witness:
  "(\<forall>a b. range_to stand_in_colour a b STEPS \<noteq> [] \<and> hd (range_to stand_in_colour a b STEPS) = a
      \<and> last (range_to stand_in_colour a b STEPS) = b)
   \<and> last (build_colors stand_in_colour [''#E6F800'', ''#71E05A'', ''#00BE84''] ! 0) = ''#71E05A''
   \<and> hd (build_colors stand_in_colour [''#E6F800'', ''#71E05A'', ''#00BE84''] ! 1) = ''#71E05A''
   \<and> (\<exists>pre post. concat (build_colors stand_in_colour [''#E6F800'', ''#71E05A'', ''#00BE84''])
        = pre @ [''#71E05A'', ''#71E05A''] @ post)"
proof -
  let ?seeds = "[''#E6F800'', ''#71E05A'', ''#00BE84'']"
  have c: "\<forall>a b. range_to stand_in_colour a b STEPS \<noteq> [] \<and> hd (range_to stand_in_colour a b STEPS) = a
      \<and> last (range_to stand_in_colour a b STEPS) = b"
    by (simp add: stand_in_colour_def STEPS_def numeral_eq_Suc)
  have i: "0 + 1 < length (build_colors stand_in_colour ?seeds)"
    by (simp add: length_build_colors)
  from adjacent_segments_share_seed[OF c i] c show ?thesis
    by simp
qed

end
